theory Spec2Isabelle
  imports Main "HOL-Library.AList"
begin

section \<open>The digraph store (class SortableDigraph)\<close>

text \<open>
  The three dictionaries of a graph object. \<open>graph\<close> is iterated by the code, so it is an
  association list in insertion order (a Python dict keeps the order in which its keys were
  first stored); \<open>node_values\<close> and \<open>edge_weights\<close> are only looked up, so they are maps.
  An optional argument (\<open>value=None\<close>, \<open>edge_weight=None\<close>) is an \<open>option\<close>.
\<close>

record ('a, 'v, 'w) digraph =
  graph :: "('a \<times> 'a list) list"
  node_values :: "'a \<rightharpoonup> 'v"
  edge_weights :: "'a \<times> 'a \<rightharpoonup> 'w"

text \<open>The exceptions the code can raise: the \<open>ValueError\<close> of \<open>DAG.add_edge\<close>, whose message
  names start and end, and the \<open>KeyError\<close> of a failed dictionary subscript.\<close>

datatype 'a error = ValueError 'a 'a | KeyError 'a

definition init :: "('a, 'v, 'w) digraph" where
  "init = \<lparr>graph = [], node_values = Map.empty, edge_weights = Map.empty\<rparr>"

text \<open>\<open>node in self.graph\<close>\<close>

definition contains :: "('a, 'v, 'w) digraph \<Rightarrow> 'a \<Rightarrow> bool" where
  "contains g node = (node \<in> fst ` set (graph g))"

text \<open>\<open>self.graph.get(node, [])\<close>: \<open>__getitem__\<close> and \<open>successors\<close>\<close>

definition getitem :: "('a, 'v, 'w) digraph \<Rightarrow> 'a \<Rightarrow> 'a list" where
  "getitem g node = (case map_of (graph g) node of None \<Rightarrow> [] | Some ns \<Rightarrow> ns)"

definition successors :: "('a, 'v, 'w) digraph \<Rightarrow> 'a \<Rightarrow> 'a list" where
  "successors g node = (case map_of (graph g) node of None \<Rightarrow> [] | Some ns \<Rightarrow> ns)"

text \<open>\<open>self.edge_weights.get((start, end))\<close>\<close>

definition get_edge_weight :: "('a, 'v, 'w) digraph \<Rightarrow> 'a \<Rightarrow> 'a \<Rightarrow> 'w option" where
  "get_edge_weight g start end = edge_weights g (start, end)"

definition predecessors :: "('a, 'v, 'w) digraph \<Rightarrow> 'a \<Rightarrow> 'a list" where
  "predecessors g node = map fst (filter (\<lambda>(n, neighbors). node \<in> set neighbors) (graph g))"

definition add_node :: "('a, 'v, 'w) digraph \<Rightarrow> 'a \<Rightarrow> 'v option \<Rightarrow> ('a, 'v, 'w) digraph" where
  "add_node g node val =
     (let g1 = (if node \<notin> fst ` set (graph g)
                then g\<lparr>graph := AList.update node [] (graph g)\<rparr> else g)
      in case val of None \<Rightarrow> g1
         | Some v \<Rightarrow> g1\<lparr>node_values := (node_values g1)(node \<mapsto> v)\<rparr>)"

text \<open>
  \<open>SortableDigraph.add_edge\<close>. The subscript \<open>self.graph[start]\<close> comes after both endpoints
  were inserted, so its \<open>KeyError\<close> cannot happen (lemma \<open>add_edge_start_present\<close>); the
  model still writes the branch out, as a \<open>KeyError\<close> result.
\<close>

definition add_edge ::
  "('a, 'v, 'w) digraph \<Rightarrow> 'a \<Rightarrow> 'a \<Rightarrow> 'w option \<Rightarrow> 'a error + ('a, 'v, 'w) digraph" where
  "add_edge g start end edge_weight =
     (let g1 = (if start \<notin> fst ` set (graph g) then add_node g start None else g);
          g2 = (if end \<notin> fst ` set (graph g1) then add_node g1 end None else g1)
      in case map_of (graph g2) start of
           None \<Rightarrow> Inl (KeyError start)
         | Some ns \<Rightarrow>
             (let g3 = (if end \<notin> set ns
                        then g2\<lparr>graph := AList.update start (ns @ [end]) (graph g2)\<rparr> else g2)
              in case edge_weight of None \<Rightarrow> Inr g3
                 | Some w \<Rightarrow> Inr (g3\<lparr>edge_weights := (edge_weights g3)((start, end) \<mapsto> w)\<rparr>)))"


section \<open>The traversal engine (class TraversableDigraph)\<close>

text \<open>
  Every node a traversal can ever hold in its worklist: what is in the worklist now, and
  what some adjacency list mentions. It bounds the number of iterations of both loops.
\<close>

definition universe :: "('a, 'v, 'w) digraph \<Rightarrow> 'a list \<Rightarrow> 'a set" where
  "universe g work = set work \<union> (\<Union>ns \<in> snd ` set (graph g). set ns)"

lemma finite_universe: "finite (universe g work)"
  by (auto simp: universe_def)

lemma getitem_subset: "set (getitem g n) \<subseteq> (\<Union>ns \<in> snd ` set (graph g). set ns)"
proof
  fix x
  assume "x \<in> set (getitem g n)"
  then obtain ns where ns: "map_of (graph g) n = Some ns" "x \<in> set ns"
    by (cases "map_of (graph g) n") (auto simp: getitem_def)
  from ns(1) have "(n, ns) \<in> set (graph g)"
    by (rule map_of_SomeD)
  then have "ns \<in> snd ` set (graph g)"
    by force
  with ns(2) show "x \<in> (\<Union>ns \<in> snd ` set (graph g). set ns)"
    by blast
qed

text \<open>
  The \<open>while stack:\<close> loop of \<open>dfs\<close>. The generator's output is the list of the nodes it
  yields, in order. \<open>stack\<close> is the Python list: \<open>pop()\<close> takes its last element and
  \<open>append\<close> adds at the end. The test \<open>neighbor not in visited\<close> runs after
  \<open>visited.add(node)\<close>, and \<open>visited\<close> does not change during the \<open>for\<close>, so the \<open>for\<close>
  appends the filtered reversed neighbour list.
\<close>

function dfs_loop :: "('a, 'v, 'w) digraph \<Rightarrow> 'a \<Rightarrow> 'a set \<Rightarrow> 'a list \<Rightarrow> 'a list" where
  "dfs_loop g start visited stack =
     (if stack = [] then []
      else let node = last stack; stack1 = butlast stack in
        if node \<in> visited then dfs_loop g start visited stack1
        else let visited1 = insert node visited in
          (if node \<noteq> start then [node] else []) @
          dfs_loop g start visited1
            (stack1 @ filter (\<lambda>neighbor. neighbor \<notin> visited1) (rev (getitem g node))))"
  by pat_completeness auto
termination
proof (relation "(\<lambda>(g, start, visited, stack). card (universe g stack - visited)) <*mlex*>
                 measure (\<lambda>(g, start, visited, stack). length stack)", goal_cases)
  case 1
  then show ?case by (simp add: wf_mlex)
next
  case (2 g start visited stack node stack1)
  have "universe g stack1 \<subseteq> universe g stack"
    using 2 by (auto simp: universe_def dest: in_set_butlastD)
  then have "card (universe g stack1 - visited) \<le> card (universe g stack - visited)"
    by (intro card_mono) (auto simp: finite_universe)
  then show ?case using 2 by (auto simp: mlex_iff)
next
  case (3 g start visited stack node stack1 visited1)
  let ?new = "stack1 @ filter (\<lambda>neighbor. neighbor \<notin> visited1) (rev (getitem g node))"
  have a: "universe g ?new \<subseteq> universe g stack"
    using 3 getitem_subset[of g node] by (auto simp: universe_def dest: in_set_butlastD)
  have b: "node \<in> universe g stack - visited"
    using 3 by (auto simp: universe_def)
  have "universe g ?new - visited1 \<subset> universe g stack - visited"
    using a b 3 by auto
  then have "card (universe g ?new - visited1) < card (universe g stack - visited)"
    by (intro psubset_card_mono) (auto simp: finite_universe)
  then show ?case using 3 by (auto simp: mlex_iff)
qed

definition dfs :: "('a, 'v, 'w) digraph \<Rightarrow> 'a \<Rightarrow> 'a list" where
  "dfs g start = dfs_loop g start {} [start]"

text \<open>The \<open>while queue:\<close> loop of \<open>bfs\<close>: \<open>popleft()\<close> takes the head of the deque,
  \<open>append\<close> adds at the end.\<close>

function bfs_loop :: "('a, 'v, 'w) digraph \<Rightarrow> 'a \<Rightarrow> 'a set \<Rightarrow> 'a list \<Rightarrow> 'a list" where
  "bfs_loop g start visited queue =
     (case queue of [] \<Rightarrow> []
      | node # queue1 \<Rightarrow>
        if node \<in> visited then bfs_loop g start visited queue1
        else let visited1 = insert node visited in
          (if node \<noteq> start then [node] else []) @
          bfs_loop g start visited1
            (queue1 @ filter (\<lambda>neighbor. neighbor \<notin> visited1) (getitem g node)))"
  by pat_completeness auto
termination
proof (relation "(\<lambda>(g, start, visited, queue). card (universe g queue - visited)) <*mlex*>
                 measure (\<lambda>(g, start, visited, queue). length queue)", goal_cases)
  case 1
  then show ?case by (simp add: wf_mlex)
next
  case (2 g start visited queue node queue1)
  have "universe g queue1 \<subseteq> universe g queue"
    using 2 by (auto simp: universe_def)
  then have "card (universe g queue1 - visited) \<le> card (universe g queue - visited)"
    by (intro card_mono) (auto simp: finite_universe)
  then show ?case using 2 by (auto simp: mlex_iff)
next
  case (3 g start visited queue node queue1 visited1)
  let ?new = "queue1 @ filter (\<lambda>neighbor. neighbor \<notin> visited1) (getitem g node)"
  have a: "universe g ?new \<subseteq> universe g queue"
    using 3 getitem_subset[of g node] by (auto simp: universe_def)
  have b: "node \<in> universe g queue - visited"
    using 3 by (auto simp: universe_def)
  have "universe g ?new - visited1 \<subset> universe g queue - visited"
    using a b 3 by auto
  then have "card (universe g ?new - visited1) < card (universe g queue - visited)"
    by (intro psubset_card_mono) (auto simp: finite_universe)
  then show ?case using 3 by (auto simp: mlex_iff)
qed

declare dfs_loop.simps [simp del] bfs_loop.simps [simp del]

definition bfs :: "('a, 'v, 'w) digraph \<Rightarrow> 'a \<Rightarrow> 'a list" where
  "bfs g start = bfs_loop g start {} [start]"

section \<open>The acyclicity guard and the topological sort (class DAG)\<close>

text \<open>The \<open>for node in self.bfs(start)\<close> loop of \<open>_has_path\<close>, with its early return.\<close>

fun has_path_loop :: "'a list \<Rightarrow> 'a \<Rightarrow> bool" where
  "has_path_loop [] target = False"
| "has_path_loop (node # rest) target = (if node = target then True else has_path_loop rest target)"

definition has_path :: "('a, 'v, 'w) digraph \<Rightarrow> 'a \<Rightarrow> 'a \<Rightarrow> bool" where
  "has_path g start target =
     (if \<not> contains g start then False else has_path_loop (bfs g start) target)"

text \<open>
  \<open>DAG.add_edge\<close>. The object is mutated before the check, so the result is a pair: what
  the call returns or raises, and the state it leaves behind.
\<close>

definition dag_add_edge ::
  "('a, 'v, 'w) digraph \<Rightarrow> 'a \<Rightarrow> 'a \<Rightarrow> 'w option \<Rightarrow> ('a error + unit) \<times> ('a, 'v, 'w) digraph" where
  "dag_add_edge g start end edge_weight =
     (let g1 = (if \<not> contains g start then add_node g start None else g);
          g2 = (if \<not> contains g1 end then add_node g1 end None else g1)
      in if has_path g2 end start then (Inl (ValueError start end), g2)
         else (case add_edge g2 start end edge_weight of
                 Inl e \<Rightarrow> (Inl e, g2)
               | Inr g3 \<Rightarrow> (Inr (), g3)))"

text \<open>
  \<open>top_sort\<close>. \<open>in_degree\<close> is a dict, here an association list of Python integers; a
  subscript of a missing key is a \<open>KeyError\<close>. \<open>count_neighbors\<close> is the inner \<open>for\<close> of the
  counting phase and \<open>count_in_degree\<close> the outer one over \<open>self.graph.items()\<close>.
\<close>

fun count_neighbors :: "('a \<times> int) list \<Rightarrow> 'a list \<Rightarrow> 'a error + ('a \<times> int) list" where
  "count_neighbors in_degree [] = Inr in_degree"
| "count_neighbors in_degree (neighbor # rest) =
     (case map_of in_degree neighbor of
        None \<Rightarrow> Inl (KeyError neighbor)
      | Some d \<Rightarrow> count_neighbors (AList.update neighbor (d + 1) in_degree) rest)"

fun count_in_degree ::
  "('a \<times> int) list \<Rightarrow> ('a \<times> 'a list) list \<Rightarrow> 'a error + ('a \<times> int) list" where
  "count_in_degree in_degree [] = Inr in_degree"
| "count_in_degree in_degree ((node, neighbors) # items) =
     (case count_neighbors in_degree neighbors of
        Inl e \<Rightarrow> Inl e
      | Inr in_degree1 \<Rightarrow> count_in_degree in_degree1 items)"

text \<open>The \<open>for neighbor in self.graph[node]\<close> of the elimination phase: it updates
  \<open>in_degree\<close> and \<open>queue\<close> together.\<close>

fun release ::
  "('a \<times> int) list \<Rightarrow> 'a list \<Rightarrow> 'a list \<Rightarrow> 'a error + (('a \<times> int) list \<times> 'a list)" where
  "release in_degree queue [] = Inr (in_degree, queue)"
| "release in_degree queue (neighbor # rest) =
     (case map_of in_degree neighbor of
        None \<Rightarrow> Inl (KeyError neighbor)
      | Some d \<Rightarrow>
          release (AList.update neighbor (d - 1) in_degree)
            (if d - 1 = 0 then queue @ [neighbor] else queue) rest)"

definition positive :: "('a \<times> int) list \<Rightarrow> nat" where
  "positive in_degree = length (filter (\<lambda>(n, d). 0 < d) in_degree)"

lemma positive_update:
  "map_of in_degree n = Some d \<Longrightarrow>
   positive (AList.update n d' in_degree) + (if 0 < d then 1 else 0) =
   positive in_degree + (if 0 < d' then 1 else 0)"
  by (induction in_degree) (auto simp: positive_def split: if_splits)

lemma release_measure:
  "release in_degree queue ns = Inr (in_degree', queue') \<Longrightarrow>
   length queue' + positive in_degree' \<le> length queue + positive in_degree"
proof (induction ns arbitrary: in_degree queue)
  case Nil
  then show ?case by simp
next
  case (Cons n ns)
  from Cons.prems obtain d where d: "map_of in_degree n = Some d"
    by (auto split: option.splits)
  let ?deg = "AList.update n (d - 1) in_degree"
  let ?q = "if d - 1 = 0 then queue @ [n] else queue"
  from Cons.prems d have "release ?deg ?q ns = Inr (in_degree', queue')"
    by simp
  from Cons.IH[OF this]
  have "length queue' + positive in_degree' \<le> length ?q + positive ?deg" .
  moreover have "length ?q + positive ?deg \<le> length queue + positive in_degree"
  proof (cases "d = 1")
    case True
    with positive_update[OF d, of 0] show ?thesis by simp
  next
    case False
    with positive_update[OF d, of "d - 1"] show ?thesis by (simp split: if_splits)
  qed
  ultimately show ?case by linarith
qed

function top_loop ::
  "('a, 'v, 'w) digraph \<Rightarrow> ('a \<times> int) list \<Rightarrow> 'a list \<Rightarrow> 'a list \<Rightarrow> 'a error + 'a list" where
  "top_loop g in_degree queue result =
     (case queue of [] \<Rightarrow> Inr result
      | node # queue1 \<Rightarrow>
          (case map_of (graph g) node of
             None \<Rightarrow> Inl (KeyError node)
           | Some neighbors \<Rightarrow>
               (case release in_degree queue1 neighbors of
                  Inl e \<Rightarrow> Inl e
                | Inr (in_degree1, queue2) \<Rightarrow>
                    top_loop g in_degree1 queue2 (result @ [node]))))"
  by pat_completeness auto
termination
proof (relation "measure (\<lambda>(g, in_degree, queue, result). length queue + positive in_degree)",
       goal_cases)
  case 1
  then show ?case by simp
next
  case (2 g in_degree queue result node queue1 neighbors x in_degree1 queue2)
  then have "release in_degree queue1 neighbors = Inr (in_degree1, queue2)"
    by simp
  from release_measure[OF this] 2 show ?case by simp
qed

declare top_loop.simps [simp del]

text \<open>
  The dict comprehension gives every key of \<open>self.graph\<close> the count 0, and the list
  comprehension reads \<open>in_degree[node]\<close> for keys of \<open>self.graph\<close> only, which are all keys
  of \<open>in_degree\<close>: it cannot raise.
\<close>

definition top_sort :: "('a, 'v, 'w) digraph \<Rightarrow> 'a error + 'a list" where
  "top_sort g =
     (case count_in_degree (map (\<lambda>(node, neighbors). (node, 0)) (graph g)) (graph g) of
        Inl e \<Rightarrow> Inl e
      | Inr in_degree \<Rightarrow>
          top_loop g in_degree
            (filter (\<lambda>node. map_of in_degree node = Some 0) (map fst (graph g))) [])"


text \<open>The edge relation of a graph: \<open>v\<close> is in the successor sequence of \<open>u\<close>.\<close>

definition edges :: "('a, 'v, 'w) digraph \<Rightarrow> ('a \<times> 'a) set" where
  "edges g = {(u, v). v \<in> set (getitem g u)}"

text \<open>The two guarded \<open>add_node\<close> calls at the head of both \<open>add_edge\<close> methods.\<close>

definition ensure :: "('a, 'v, 'w) digraph \<Rightarrow> 'a \<Rightarrow> 'a \<Rightarrow> ('a, 'v, 'w) digraph" where
  "ensure g a b = (let g1 = (if \<not> contains g a then add_node g a None else g)
                   in if \<not> contains g1 b then add_node g1 b None else g1)"

text \<open>
  Reachability that keeps clear of a set of nodes: \<open>reach E V W\<close> are the nodes that a path
  of \<open>E\<close> reaches from a node of \<open>W\<close> without ever entering \<open>V\<close>. With \<open>V\<close> the visited set
  and \<open>W\<close> the worklist it is what a traversal has still to yield.
\<close>

definition avoiding :: "('a \<times> 'a) set \<Rightarrow> 'a set \<Rightarrow> ('a \<times> 'a) set" where
  "avoiding E V = {(u, v). (u, v) \<in> E \<and> v \<notin> V}"

definition reach :: "('a \<times> 'a) set \<Rightarrow> 'a set \<Rightarrow> 'a set \<Rightarrow> 'a set" where
  "reach E V W = (avoiding E V)\<^sup>* `` (W - V)"

text \<open>
  The distance of \<open>v\<close> from \<open>s\<close>: the length of a shortest path of edges from \<open>s\<close> to \<open>v\<close>
  (it is only read for nodes that \<open>s\<close> reaches).
\<close>

definition dist :: "('a, 'v, 'w) digraph \<Rightarrow> 'a \<Rightarrow> 'a \<Rightarrow> nat" where
  "dist g s v = (LEAST n. (s, v) \<in> edges g ^^ n)"

text \<open>The first occurrences in a sequence, in order, leaving out what is in \<open>V\<close> already.\<close>

fun first_visits :: "'a set \<Rightarrow> 'a list \<Rightarrow> 'a list" where
  "first_visits V [] = []"
| "first_visits V (x # xs) =
     (if x \<in> V then first_visits V xs else x # first_visits (insert x V) xs)"

text \<open>
  The log of the \<open>queue.append\<close> calls of \<open>bfs\<close>: the same loop as \<open>bfs_loop\<close>, recording
  the nodes in the order in which they are appended to the queue instead of the nodes
  yielded.
\<close>

function bfs_enqueued :: "('a, 'v, 'w) digraph \<Rightarrow> 'a set \<Rightarrow> 'a list \<Rightarrow> 'a list" where
  "bfs_enqueued g visited queue =
     (case queue of [] \<Rightarrow> []
      | node # queue1 \<Rightarrow>
        if node \<in> visited then bfs_enqueued g visited queue1
        else let visited1 = insert node visited;
                 pushed = filter (\<lambda>neighbor. neighbor \<notin> visited1) (getitem g node)
             in pushed @ bfs_enqueued g visited1 (queue1 @ pushed))"
  by pat_completeness auto
termination
proof (relation "(\<lambda>(g, visited, queue). card (universe g queue - visited)) <*mlex*>
                 measure (\<lambda>(g, visited, queue). length queue)", goal_cases)
  case 1
  then show ?case by (simp add: wf_mlex)
next
  case (2 g visited queue node queue1)
  have "universe g queue1 \<subseteq> universe g queue"
    using 2 by (auto simp: universe_def)
  then have "card (universe g queue1 - visited) \<le> card (universe g queue - visited)"
    by (intro card_mono) (auto simp: finite_universe)
  then show ?case using 2 by (auto simp: mlex_iff)
next
  case (3 g visited queue node queue1 visited1 pushed)
  have a: "universe g (queue1 @ pushed) \<subseteq> universe g queue"
    using 3 getitem_subset[of g node] by (auto simp: universe_def)
  have b: "node \<in> universe g queue - visited"
    using 3 by (auto simp: universe_def)
  have "universe g (queue1 @ pushed) - visited1 \<subset> universe g queue - visited"
    using a b 3 by auto
  then have "card (universe g (queue1 @ pushed) - visited1) < card (universe g queue - visited)"
    by (intro psubset_card_mono) (auto simp: finite_universe)
  then show ?case using 3 by (auto simp: mlex_iff)
qed

declare bfs_enqueued.simps [simp del]

text \<open>A frontier in breadth-first order: distances do not decrease along it and stay
  within one of the distance of its head.\<close>

definition layered :: "('a \<Rightarrow> nat) \<Rightarrow> 'a list \<Rightarrow> bool" where
  "layered D e \<longleftrightarrow> sorted (map D e) \<and> (\<forall>x \<in> set e. D x \<le> Suc (D (hd e)))"

text \<open>Calling a method several times in a row, stopping at the first exception.\<close>

fun add_edges ::
  "('a, 'v, 'w) digraph \<Rightarrow> ('a \<times> 'a) list \<Rightarrow> 'a error + ('a, 'v, 'w) digraph" where
  "add_edges g [] = Inr g"
| "add_edges g ((a, b) # es) =
     (case add_edge g a b None of Inl e \<Rightarrow> Inl e | Inr g1 \<Rightarrow> add_edges g1 es)"

fun dag_add_edges ::
  "('a, 'v, 'w) digraph \<Rightarrow> ('a \<times> 'a) list \<Rightarrow> 'a error + ('a, 'v, 'w) digraph" where
  "dag_add_edges g [] = Inr g"
| "dag_add_edges g ((a, b) # es) =
     (case dag_add_edge g a b None of
        (Inl e, g1) \<Rightarrow> Inl e
      | (Inr u, g1) \<Rightarrow> dag_add_edges g1 es)"

text \<open>The graphs a caller can build with the store's two insertion methods.\<close>

inductive store_reachable :: "('a, 'v, 'w) digraph \<Rightarrow> bool" where
  sr_init: "store_reachable init"
| sr_add_node: "store_reachable g \<Longrightarrow> store_reachable (add_node g n v)"
| sr_add_edge: "store_reachable g \<Longrightarrow> add_edge g a b w = Inr g1 \<Longrightarrow> store_reachable g1"

section \<open>Facts about the store\<close>

lemma contains_iff_map_of: "contains g n \<longleftrightarrow> map_of (graph g) n \<noteq> None"
  by (simp add: contains_def map_of_eq_None_iff)

lemma getitem_absent: "\<not> contains g n \<Longrightarrow> getitem g n = []"
  by (simp add: contains_iff_map_of getitem_def)

lemma map_of_add_node:
  "map_of (graph (add_node g n v)) =
     (if contains g n then map_of (graph g) else (map_of (graph g))(n \<mapsto> []))"
  by (auto simp: add_node_def contains_def update_conv' split: option.splits)

lemma getitem_add_node [simp]: "getitem (add_node g n v) = getitem g"
  by (rule ext) (auto simp: getitem_def map_of_add_node contains_iff_map_of split: option.splits)

lemma contains_add_node [simp]: "contains (add_node g n v) m \<longleftrightarrow> m = n \<or> contains g m"
  by (auto simp: contains_iff_map_of map_of_add_node)

lemma edge_weights_add_node [simp]: "edge_weights (add_node g n v) = edge_weights g"
  by (auto simp: add_node_def split: option.splits)

lemma getitem_ensure [simp]: "getitem (ensure g a b) = getitem g"
  by (simp add: ensure_def Let_def)

lemma contains_ensure [simp]: "contains (ensure g a b) m \<longleftrightarrow> m = a \<or> m = b \<or> contains g m"
  by (auto simp: ensure_def Let_def)

lemma edge_weights_ensure [simp]: "edge_weights (ensure g a b) = edge_weights g"
  by (simp add: ensure_def Let_def)

lemma ensure_present: "contains g a \<Longrightarrow> contains g b \<Longrightarrow> ensure g a b = g"
  by (simp add: ensure_def)

lemma edges_ensure [simp]: "edges (ensure g a b) = edges g"
  by (simp add: edges_def)

text \<open>What \<open>SortableDigraph.add_edge\<close> returns, in closed form; in particular it never raises.\<close>

lemma add_edge_eq:
  "add_edge g a b w =
     Inr ((ensure g a b)\<lparr>
        graph := (if b \<in> set (getitem g a) then graph (ensure g a b)
                  else AList.update a (getitem g a @ [b]) (graph (ensure g a b))),
        edge_weights := (case w of None \<Rightarrow> edge_weights g
                         | Some x \<Rightarrow> (edge_weights g)((a, b) \<mapsto> x))\<rparr>)"
proof -
  have "contains (ensure g a b) a"
    by simp
  then obtain ns where ns: "map_of (graph (ensure g a b)) a = Some ns"
    by (auto simp: contains_iff_map_of)
  have "getitem (ensure g a b) a = ns"
    unfolding getitem_def using ns by simp
  then have ns': "ns = getitem g a"
    by simp
  have e: "(let g1 = (if a \<notin> fst ` set (graph g) then add_node g a None else g)
            in if b \<notin> fst ` set (graph g1) then add_node g1 b None else g1) = ensure g a b"
    by (simp add: ensure_def contains_def)
  show ?thesis
    unfolding add_edge_def e[unfolded Let_def] Let_def
    using ns ns' by (cases w) auto
qed

lemma add_edge_start_present:
  "map_of (graph (ensure g start end)) start \<noteq> None"
  using contains_ensure[of g start "end" start] unfolding contains_iff_map_of by simp

lemma add_edge_getitem:
  assumes "add_edge g a b w = Inr g1"
  shows "getitem g1 = (getitem g)(a := if b \<in> set (getitem g a) then getitem g a
                                       else getitem g a @ [b])"
proof (rule ext)
  fix n
  have m: "map_of (graph (ensure g a b)) n = Some ns \<Longrightarrow> getitem g n = ns" for ns
    using getitem_ensure[of g a b] unfolding getitem_def[of "ensure g a b"] fun_eq_iff
    by (metis option.simps(5) getitem_def)
  have m': "map_of (graph (ensure g a b)) n = None \<Longrightarrow> getitem g n = []"
    using getitem_ensure[of g a b] unfolding getitem_def[of "ensure g a b"] fun_eq_iff
    by (metis option.simps(4) getitem_def)
  from assms have g1: "graph g1 = (if b \<in> set (getitem g a) then graph (ensure g a b)
                  else AList.update a (getitem g a @ [b]) (graph (ensure g a b)))"
    by (auto simp: add_edge_eq)
  show "getitem g1 n = ((getitem g)(a := if b \<in> set (getitem g a) then getitem g a
                                       else getitem g a @ [b])) n"
    using m m' unfolding getitem_def[of g1] g1
    by (cases "map_of (graph (ensure g a b)) n") (auto simp: update_conv')
qed

lemma add_edge_contains:
  assumes "add_edge g a b w = Inr g1"
  shows "contains g1 n \<longleftrightarrow> n = a \<or> n = b \<or> contains g n"
proof -
  from assms have g1: "graph g1 = (if b \<in> set (getitem g a) then graph (ensure g a b)
                  else AList.update a (getitem g a @ [b]) (graph (ensure g a b)))"
    by (auto simp: add_edge_eq)
  have "contains g1 n \<longleftrightarrow> n = a \<or> contains (ensure g a b) n"
    unfolding contains_iff_map_of g1 using add_edge_start_present[of g a b]
    by (auto simp: update_conv')
  then show ?thesis by auto
qed

lemma add_edge_edges:
  assumes "add_edge g a b w = Inr g1"
  shows "edges g1 = insert (a, b) (edges g)"
  unfolding edges_def add_edge_getitem[OF assms] by (auto split: if_splits)

lemma ensure_idem: "ensure (ensure g a b) a b = ensure g a b"
  by (simp add: ensure_present)

lemma add_edge_ensure: "add_edge (ensure g a b) a b w = add_edge g a b w"
  by (cases w) (simp_all add: add_edge_eq ensure_idem)

lemma dag_add_edge_eq:
  "dag_add_edge g a b w =
    (if has_path (ensure g a b) b a then (Inl (ValueError a b), ensure g a b)
     else (case add_edge g a b w of Inl e \<Rightarrow> (Inl e, ensure g a b) | Inr g3 \<Rightarrow> (Inr (), g3)))"
proof -
  have e: "(let g1 = (if \<not> contains g a then add_node g a None else g)
            in if \<not> contains g1 b then add_node g1 b None else g1) = ensure g a b"
    by (simp add: ensure_def)
  show ?thesis
    unfolding dag_add_edge_def e[unfolded Let_def] Let_def
    by (simp add: add_edge_ensure)
qed

lemma store_reachable_distinct: "store_reachable g \<Longrightarrow> distinct (getitem g n)"
proof (induction arbitrary: n rule: store_reachable.induct)
  case sr_init
  then show ?case by (simp add: getitem_def init_def)
next
  case (sr_add_node g m v)
  then show ?case by simp
next
  case (sr_add_edge g a b w g1)
  then show ?case by (simp add: add_edge_getitem[OF sr_add_edge.hyps(2)])
qed

lemma count_list_distinct: "distinct xs \<Longrightarrow> x \<in> set xs \<Longrightarrow> count_list xs x = 1"
  by (induction xs) (auto simp: count_list_0_iff)

section \<open>Facts about the traversal loops\<close>

lemma bfs_loop_Nil [simp]: "bfs_loop g start visited [] = []"
  by (simp add: bfs_loop.simps)

lemma bfs_loop_Cons:
  "bfs_loop g start visited (node # queue1) =
     (if node \<in> visited then bfs_loop g start visited queue1
      else (if node \<noteq> start then [node] else []) @
           bfs_loop g start (insert node visited)
             (queue1 @ filter (\<lambda>neighbor. neighbor \<notin> insert node visited) (getitem g node)))"
  by (simp add: bfs_loop.simps[of g start visited "node # queue1"] Let_def)

lemma dfs_loop_Nil [simp]: "dfs_loop g start visited [] = []"
  by (simp add: dfs_loop.simps)

lemma dfs_loop_snoc:
  "dfs_loop g start visited (stack1 @ [node]) =
     (if node \<in> visited then dfs_loop g start visited stack1
      else (if node \<noteq> start then [node] else []) @
           dfs_loop g start (insert node visited)
             (stack1 @ filter (\<lambda>neighbor. neighbor \<notin> insert node visited)
                         (rev (getitem g node))))"
  by (simp add: dfs_loop.simps[of g start visited "stack1 @ [node]"] Let_def)

lemma has_path_loop_iff: "has_path_loop xs t \<longleftrightarrow> t \<in> set xs"
  by (induction xs) auto

lemma bfs_loop_not_start: "start \<notin> set (bfs_loop g start visited queue)"
proof (induction g start visited queue rule: bfs_loop.induct)
  case (1 g start visited queue)
  show ?case
  proof (cases queue)
    case Nil
    then show ?thesis by simp
  next
    case (Cons node queue1)
    show ?thesis
    proof (cases "node \<in> visited")
      case True
      with Cons 1(1) show ?thesis by (simp add: bfs_loop_Cons)
    next
      case False
      with Cons 1(2) show ?thesis by (simp add: bfs_loop_Cons)
    qed
  qed
qed

section \<open>What the traversals yield\<close>

lemma reach_empty [simp]: "reach E V {} = {}"
  by (simp add: reach_def)

lemma reach_cong: "W - V = W' - V \<Longrightarrow> reach E V W = reach E V W'"
  by (simp add: reach_def)

lemma reach_skip: "n \<in> V \<Longrightarrow> reach E V (insert n W) = reach E V W"
  by (rule reach_cong) auto

lemma reach_filter: "reach E V (A \<union> {x \<in> B. x \<notin> V}) = reach E V (A \<union> B)"
  by (rule reach_cong) auto

lemma reach_avoids: "x \<in> reach E V W \<Longrightarrow> x \<notin> V"
proof -
  assume "x \<in> reach E V W"
  then obtain w where w: "w \<in> W - V" "(w, x) \<in> (avoiding E V)\<^sup>*"
    by (auto simp: reach_def)
  from w(2) w(1) show ?thesis
    by (induction rule: rtrancl_induct) (auto simp: avoiding_def)
qed

lemma avoiding_mono: "V \<subseteq> V' \<Longrightarrow> avoiding E V' \<subseteq> avoiding E V"
  by (auto simp: avoiding_def)

lemma reach_step:
  assumes "n \<notin> V"
  shows "reach E V (insert n W) = insert n (reach E (insert n V) (W \<union> E `` {n}))"
proof (intro equalityI subsetI)
  fix x
  assume "x \<in> reach E V (insert n W)"
  then obtain w where w: "w \<in> insert n W - V" "(w, x) \<in> (avoiding E V)\<^sup>*"
    by (auto simp: reach_def)
  from w(2) show "x \<in> insert n (reach E (insert n V) (W \<union> E `` {n}))"
  proof (induction rule: rtrancl_induct)
    case base
    show ?case
    proof (cases "w = n")
      case True
      then show ?thesis by simp
    next
      case False
      with w(1) have "w \<in> (W \<union> E `` {n}) - insert n V"
        by auto
      then have "w \<in> reach E (insert n V) (W \<union> E `` {n})"
        unfolding reach_def by blast
      then show ?thesis by simp
    qed
  next
    case (step y z)
    from step.hyps(2) have yz: "(y, z) \<in> E" "z \<notin> V"
      by (auto simp: avoiding_def)
    show ?case
    proof (cases "z = n")
      case True
      then show ?thesis by simp
    next
      case zn: False
      show ?thesis
      proof (cases "y = n")
        case True
        with yz zn have "z \<in> (W \<union> E `` {n}) - insert n V"
          by auto
        then have "z \<in> reach E (insert n V) (W \<union> E `` {n})"
          unfolding reach_def by blast
        then show ?thesis by simp
      next
        case False
        with step.IH obtain w' where w': "w' \<in> (W \<union> E `` {n}) - insert n V"
            "(w', y) \<in> (avoiding E (insert n V))\<^sup>*"
          by (auto simp: reach_def)
        from yz zn have "(y, z) \<in> avoiding E (insert n V)"
          by (simp add: avoiding_def)
        with w'(2) have "(w', z) \<in> (avoiding E (insert n V))\<^sup>*"
          by (rule rtrancl_into_rtrancl)
        with w'(1) have "z \<in> reach E (insert n V) (W \<union> E `` {n})"
          unfolding reach_def by blast
        then show ?thesis by simp
      qed
    qed
  qed
next
  fix x
  assume x: "x \<in> insert n (reach E (insert n V) (W \<union> E `` {n}))"
  show "x \<in> reach E V (insert n W)"
  proof (cases "x = n")
    case True
    with assms show ?thesis
      unfolding reach_def by blast
  next
    case False
    with x obtain w where w: "w \<in> (W \<union> E `` {n}) - insert n V"
        "(w, x) \<in> (avoiding E (insert n V))\<^sup>*"
      by (auto simp: reach_def)
    have "(avoiding E (insert n V))\<^sup>* \<subseteq> (avoiding E V)\<^sup>*"
      by (rule rtrancl_mono) (auto simp: avoiding_def)
    with w(2) have wx: "(w, x) \<in> (avoiding E V)\<^sup>*"
      by blast
    show ?thesis
    proof (cases "w \<in> W")
      case True
      with w(1) have "w \<in> insert n W - V" by auto
      with wx show ?thesis unfolding reach_def by blast
    next
      case False
      with w(1) have "(n, w) \<in> avoiding E V"
        by (auto simp: avoiding_def)
      from this wx have "(n, x) \<in> (avoiding E V)\<^sup>*"
        by (rule converse_rtrancl_into_rtrancl)
      moreover have "n \<in> insert n W - V"
        using assms by simp
      ultimately show ?thesis unfolding reach_def by blast
    qed
  qed
qed

lemma edges_Image: "edges g `` {n} = set (getitem g n)"
  by (auto simp: edges_def)

lemma reach_worklist:
  assumes "n \<notin> V"
  shows "insert n (reach (edges g) (insert n V)
            (W \<union> {x \<in> set (getitem g n). x \<notin> insert n V})) =
         reach (edges g) V (insert n W)"
  unfolding reach_step[OF assms] reach_filter edges_Image ..

lemma bfs_loop_set:
  "set (bfs_loop g start visited queue) = reach (edges g) visited (set queue) - {start}"
proof (induction g start visited queue rule: bfs_loop.induct)
  case (1 g start visited queue)
  show ?case
  proof (cases queue)
    case Nil
    then show ?thesis by simp
  next
    case (Cons node queue1)
    show ?thesis
    proof (cases "node \<in> visited")
      case True
      with Cons 1(1) show ?thesis
        by (simp add: bfs_loop_Cons reach_skip)
    next
      case False
      have "set (bfs_loop g start (insert node visited)
                  (queue1 @ filter (\<lambda>x. x \<notin> insert node visited) (getitem g node))) =
            reach (edges g) (insert node visited)
              (set queue1 \<union> {x \<in> set (getitem g node). x \<notin> insert node visited}) - {start}"
        using 1(2)[OF Cons False refl] by simp
      then show ?thesis
        using False Cons reach_worklist[OF False, of g "set queue1"]
        by (auto simp: bfs_loop_Cons)
    qed
  qed
qed

lemma bfs_loop_distinct: "distinct (bfs_loop g start visited queue)"
proof (induction g start visited queue rule: bfs_loop.induct)
  case (1 g start visited queue)
  show ?case
  proof (cases queue)
    case Nil
    then show ?thesis by simp
  next
    case (Cons node queue1)
    show ?thesis
    proof (cases "node \<in> visited")
      case True
      with Cons 1(1) show ?thesis
        by (simp add: bfs_loop_Cons)
    next
      case False
      have "distinct (bfs_loop g start (insert node visited)
                  (queue1 @ filter (\<lambda>x. x \<notin> insert node visited) (getitem g node)))"
        using 1(2)[OF Cons False refl] by simp
      moreover have "node \<notin> set (bfs_loop g start (insert node visited)
                  (queue1 @ filter (\<lambda>x. x \<notin> insert node visited) (getitem g node)))"
        unfolding bfs_loop_set using reach_avoids[of node "edges g" "insert node visited"]
        by auto
      ultimately show ?thesis
        using False Cons by (simp add: bfs_loop_Cons)
    qed
  qed
qed

lemma dfs_loop_set:
  "set (dfs_loop g start visited stack) = reach (edges g) visited (set stack) - {start}"
proof (induction g start visited stack rule: dfs_loop.induct)
  case (1 g start visited stack)
  show ?case
  proof (cases "stack = []")
    case True
    then show ?thesis by simp
  next
    case ne: False
    define node where "node = last stack"
    define stack1 where "stack1 = butlast stack"
    have st: "stack = stack1 @ [node]"
      using ne by (simp add: node_def stack1_def)
    show ?thesis
    proof (cases "node \<in> visited")
      case True
      have "set (dfs_loop g start visited stack1) =
            reach (edges g) visited (set stack1) - {start}"
        using 1(1)[OF ne node_def stack1_def True] .
      with True show ?thesis
        by (simp add: st dfs_loop_snoc reach_skip)
    next
      case False
      have "set (dfs_loop g start (insert node visited)
                  (stack1 @ filter (\<lambda>x. x \<notin> insert node visited) (rev (getitem g node)))) =
            reach (edges g) (insert node visited)
              (set stack1 \<union> {x \<in> set (getitem g node). x \<notin> insert node visited}) - {start}"
        using 1(2)[OF ne node_def stack1_def False refl] by simp
      then show ?thesis
        using False reach_worklist[OF False, of g "set stack1"]
        by (auto simp: st dfs_loop_snoc)
    qed
  qed
qed

lemma dfs_loop_distinct: "distinct (dfs_loop g start visited stack)"
proof (induction g start visited stack rule: dfs_loop.induct)
  case (1 g start visited stack)
  show ?case
  proof (cases "stack = []")
    case True
    then show ?thesis by simp
  next
    case ne: False
    define node where "node = last stack"
    define stack1 where "stack1 = butlast stack"
    have st: "stack = stack1 @ [node]"
      using ne by (simp add: node_def stack1_def)
    show ?thesis
    proof (cases "node \<in> visited")
      case True
      have "distinct (dfs_loop g start visited stack1)"
        using 1(1)[OF ne node_def stack1_def True] .
      with True show ?thesis
        by (simp add: st dfs_loop_snoc)
    next
      case False
      have "distinct (dfs_loop g start (insert node visited)
                  (stack1 @ filter (\<lambda>x. x \<notin> insert node visited) (rev (getitem g node))))"
        using 1(2)[OF ne node_def stack1_def False refl] by simp
      moreover have "node \<notin> set (dfs_loop g start (insert node visited)
                  (stack1 @ filter (\<lambda>x. x \<notin> insert node visited) (rev (getitem g node))))"
        unfolding dfs_loop_set using reach_avoids[of node "edges g" "insert node visited"]
        by auto
      ultimately show ?thesis
        using False by (simp add: st dfs_loop_snoc)
    qed
  qed
qed

lemma reach_start: "reach E {} {s} - {s} = {v. (s, v) \<in> E\<^sup>+ \<and> v \<noteq> s}"
proof -
  have "avoiding E {} = E"
    by (auto simp: avoiding_def)
  then show ?thesis
    by (auto simp: reach_def rtrancl_eq_or_trancl)
qed

lemma bfs_set: "set (bfs g s) = {v. (s, v) \<in> (edges g)\<^sup>+ \<and> v \<noteq> s}"
  by (simp add: bfs_def bfs_loop_set reach_start)

lemma dfs_set: "set (dfs g s) = {v. (s, v) \<in> (edges g)\<^sup>+ \<and> v \<noteq> s}"
  by (simp add: dfs_def dfs_loop_set reach_start)


lemma no_edge_from_absent: "\<not> contains g b \<Longrightarrow> (b, a) \<notin> (edges g)\<^sup>+"
proof
  assume "\<not> contains g b" "(b, a) \<in> (edges g)\<^sup>+"
  from this(2) obtain z where "(b, z) \<in> edges g"
    by (auto dest: tranclD)
  with \<open>\<not> contains g b\<close> show False
    by (simp add: edges_def getitem_absent)
qed

lemma has_path_iff: "has_path g b a \<longleftrightarrow> a \<noteq> b \<and> (b, a) \<in> (edges g)\<^sup>+"
  using no_edge_from_absent[of g b a]
  by (auto simp: has_path_def has_path_loop_iff bfs_set)

section \<open>The order of the breadth-first traversal\<close>

lemma bfs_enqueued_Nil [simp]: "bfs_enqueued g visited [] = []"
  by (simp add: bfs_enqueued.simps)

lemma bfs_enqueued_Cons:
  "bfs_enqueued g visited (node # queue1) =
     (if node \<in> visited then bfs_enqueued g visited queue1
      else filter (\<lambda>neighbor. neighbor \<notin> insert node visited) (getitem g node) @
           bfs_enqueued g (insert node visited)
             (queue1 @ filter (\<lambda>neighbor. neighbor \<notin> insert node visited) (getitem g node)))"
  by (simp add: bfs_enqueued.simps[of g visited "node # queue1"] Let_def)

lemma first_visits_append:
  "first_visits V (xs @ ys) = first_visits V xs @ first_visits (V \<union> set xs) ys"
proof (induction xs arbitrary: V)
  case Nil
  then show ?case by simp
next
  case (Cons x xs)
  show ?case
  proof (cases "x \<in> V")
    case True
    then have "V \<union> set (x # xs) = V \<union> set xs"
      by auto
    with True Cons.IH[of V] show ?thesis by simp
  next
    case False
    have "V \<union> set (x # xs) = insert x V \<union> set xs"
      by auto
    with False Cons.IH[of "insert x V"] show ?thesis by simp
  qed
qed

lemma set_first_visits: "set (first_visits V xs) = set xs - V"
  by (induction xs arbitrary: V) auto

lemma bfs_loop_first_visits:
  "bfs_loop g s V q = filter (\<lambda>n. n \<noteq> s) (first_visits V (q @ bfs_enqueued g V q))"
proof (induction g s V q rule: bfs_loop.induct)
  case (1 g s V q)
  show ?case
  proof (cases q)
    case Nil
    then show ?thesis by simp
  next
    case (Cons node q1)
    show ?thesis
    proof (cases "node \<in> V")
      case True
      with Cons 1(1) show ?thesis
        by (simp add: bfs_loop_Cons bfs_enqueued_Cons)
    next
      case False
      with Cons 1(2)[OF Cons False refl] show ?thesis
        by (simp add: bfs_loop_Cons bfs_enqueued_Cons)
    qed
  qed
qed

lemma dist_start [simp]: "dist g s s = 0"
  by (simp add: dist_def)

lemma dist_relpow: "(s, v) \<in> (edges g)\<^sup>* \<Longrightarrow> (s, v) \<in> edges g ^^ dist g s v"
proof -
  assume "(s, v) \<in> (edges g)\<^sup>*"
  then obtain n where "(s, v) \<in> edges g ^^ n"
    by (auto dest: rtrancl_imp_relpow)
  then show ?thesis
    unfolding dist_def by (rule LeastI)
qed

lemma dist_le: "(s, v) \<in> edges g ^^ n \<Longrightarrow> dist g s v \<le> n"
  unfolding dist_def by (rule Least_le)

lemma dist_edge:
  assumes "(s, u) \<in> (edges g)\<^sup>*" "(u, v) \<in> edges g"
  shows "dist g s v \<le> Suc (dist g s u)"
proof -
  from dist_relpow[OF assms(1)] assms(2) have "(s, v) \<in> edges g ^^ Suc (dist g s u)"
    by (rule relpow_Suc_I)
  then show ?thesis by (rule dist_le)
qed

lemma dist_zero: "(s, v) \<in> (edges g)\<^sup>* \<Longrightarrow> dist g s v = 0 \<Longrightarrow> v = s"
  using dist_relpow[of s v g] by simp

lemma dist_pred:
  assumes "(s, v) \<in> (edges g)\<^sup>*" "dist g s v = Suc k"
  shows "\<exists>u. (s, u) \<in> (edges g)\<^sup>* \<and> (u, v) \<in> edges g \<and> dist g s u = k"
proof -
  from dist_relpow[OF assms(1)] assms(2) have "(s, v) \<in> edges g ^^ Suc k"
    by simp
  then obtain u where u: "(s, u) \<in> edges g ^^ k" "(u, v) \<in> edges g"
    by (auto elim: relpow_Suc_E)
  from u(1) have r: "(s, u) \<in> (edges g)\<^sup>*"
    by (rule relpow_imp_rtrancl)
  from u(1) have "dist g s u \<le> k"
    by (rule dist_le)
  moreover from dist_edge[OF r u(2)] assms(2) have "k \<le> dist g s u"
    by simp
  ultimately show ?thesis
    using r u(2) by auto
qed

lemma sorted_hd_le: "sorted (map f xs) \<Longrightarrow> x \<in> set xs \<Longrightarrow> f (hd xs) \<le> f x"
  by (cases xs) auto

lemma sorted_const: "\<forall>x \<in> set xs. f x = c \<Longrightarrow> sorted (map f xs)"
  by (induction xs) auto

lemma frontier_complete:
  assumes V: "s \<in> V"
    and closed: "\<forall>u \<in> V. \<forall>v. (u, v) \<in> edges g \<longrightarrow> v \<in> V \<union> set q"
    and srt: "sorted (map (dist g s) (first_visits V q))"
  shows "(s, v) \<in> (edges g)\<^sup>* \<Longrightarrow> dist g s v = k \<Longrightarrow>
         k \<le> dist g s (hd (first_visits V q)) \<Longrightarrow> v \<in> V \<union> set q"
proof (induction k arbitrary: v)
  case 0
  then have "v = s" by (simp add: dist_zero)
  with V show ?case by simp
next
  case (Suc k)
  from dist_pred[OF Suc.prems(1,2)] obtain u where
    u: "(s, u) \<in> (edges g)\<^sup>*" "(u, v) \<in> edges g" "dist g s u = k"
    by blast
  from Suc.prems(3) have "k \<le> dist g s (hd (first_visits V q))"
    by simp
  from Suc.IH[OF u(1) u(3) this] have "u \<in> V \<union> set q" .
  moreover have "u \<notin> set (first_visits V q)"
  proof
    assume "u \<in> set (first_visits V q)"
    from sorted_hd_le[OF srt this] u(3) Suc.prems(3) show False
      by simp
  qed
  ultimately have "u \<in> V"
    by (auto simp: set_first_visits)
  with closed u(2) show ?case by blast
qed

lemma bfs_loop_sorted:
  assumes "s \<in> V"
    and "set q \<subseteq> (edges g)\<^sup>* `` {s}"
    and "\<forall>u \<in> V. \<forall>v. (u, v) \<in> edges g \<longrightarrow> v \<in> V \<union> set q"
    and "layered (dist g s) (first_visits V q)"
  shows "sorted (map (dist g s) (bfs_loop g s V q)) \<and>
         (\<forall>x \<in> set (bfs_loop g s V q).
            first_visits V q \<noteq> [] \<and> dist g s (hd (first_visits V q)) \<le> dist g s x)"
  using assms
proof (induction g s V q rule: bfs_loop.induct)
  case (1 g s V q)
  let ?D = "dist g s"
  show ?case
  proof (cases q)
    case Nil
    then show ?thesis by simp
  next
    case (Cons node q1)
    show ?thesis
    proof (cases "node \<in> V")
      case True
      have "sorted (map ?D (bfs_loop g s V q1)) \<and>
         (\<forall>x \<in> set (bfs_loop g s V q1).
            first_visits V q1 \<noteq> [] \<and> ?D (hd (first_visits V q1)) \<le> ?D x)"
      proof (rule 1(1)[OF Cons True])
        show "s \<in> V" by fact
        show "set q1 \<subseteq> (edges g)\<^sup>* `` {s}"
          using "1.prems"(2) Cons by simp
        show "\<forall>u \<in> V. \<forall>v. (u, v) \<in> edges g \<longrightarrow> v \<in> V \<union> set q1"
          using "1.prems"(3) Cons True by auto
        show "layered ?D (first_visits V q1)"
          using "1.prems"(4) Cons True by simp
      qed
      with Cons True show ?thesis
        by (simp add: bfs_loop_Cons)
    next
      case False
      define V' where "V' = insert node V"
      define p where "p = filter (\<lambda>x. x \<notin> V') (getitem g node)"
      define e1 where "e1 = first_visits V' q1"
      define new where "new = first_visits (V' \<union> set q1) p"
      have e: "first_visits V q = node # e1"
        using Cons False by (simp add: e1_def V'_def)
      have e': "first_visits V' (q1 @ p) = e1 @ new"
        by (simp add: first_visits_append e1_def new_def)
      have sV: "s \<in> V" by fact
      have node_reach: "(s, node) \<in> (edges g)\<^sup>*"
        using "1.prems"(2) Cons by simp
      have lay: "sorted (map ?D (node # e1))" "\<forall>x \<in> set e1. ?D x \<le> Suc (?D node)"
        using "1.prems"(4) unfolding e layered_def by simp_all
      have e1_ge: "\<forall>x \<in> set e1. ?D node \<le> ?D x"
        using lay(1) by simp
      have new_D: "?D n = Suc (?D node)" if "n \<in> set new" for n
      proof -
        from that have n: "n \<in> set (getitem g node)" "n \<notin> V'" "n \<notin> set q1"
          by (auto simp: new_def set_first_visits p_def)
        then have edge: "(node, n) \<in> edges g"
          by (simp add: edges_def)
        with node_reach have nr: "(s, n) \<in> (edges g)\<^sup>*"
          by (rule rtrancl_into_rtrancl)
        have le: "?D n \<le> Suc (?D node)"
          using node_reach edge by (rule dist_edge)
        have "\<not> ?D n \<le> ?D node"
        proof
          assume "?D n \<le> ?D node"
          then have "?D n \<le> ?D (hd (first_visits V q))"
            by (simp add: e)
          from frontier_complete[OF sV "1.prems"(3) _ nr refl this] lay(1)
          have "n \<in> V \<union> set q"
            by (simp add: e)
          with n Cons show False
            by (auto simp: V'_def)
        qed
        with le show ?thesis by simp
      qed
      have sorted': "sorted (map ?D (e1 @ new))"
      proof -
        have "sorted (map ?D new)"
          by (rule sorted_const[where c = "Suc (?D node)"]) (simp add: new_D)
        moreover have "sorted (map ?D e1)"
          using lay(1) by simp
        ultimately show ?thesis
          using lay(2) new_D by (auto simp: sorted_append)
      qed
      have ge: "?D node \<le> ?D x" if "x \<in> set (e1 @ new)" for x
        using that e1_ge new_D by auto
      have hd_ge: "?D node \<le> ?D (hd (e1 @ new))" if "e1 @ new \<noteq> []"
        using ge[of "hd (e1 @ new)"] that hd_in_set[OF that] by blast
      have lay': "layered ?D (first_visits V' (q1 @ p))"
        unfolding e' layered_def
      proof (intro conjI ballI)
        show "sorted (map ?D (e1 @ new))" by (rule sorted')
      next
        fix x
        assume x: "x \<in> set (e1 @ new)"
        then have "e1 @ new \<noteq> []" by auto
        from hd_ge[OF this] have "Suc (?D node) \<le> Suc (?D (hd (e1 @ new)))"
          by simp
        moreover have "?D x \<le> Suc (?D node)"
          using x lay(2) new_D by auto
        ultimately show "?D x \<le> Suc (?D (hd (e1 @ new)))"
          by simp
      qed
      have IH: "sorted (map ?D (bfs_loop g s V' (q1 @ p))) \<and>
         (\<forall>x \<in> set (bfs_loop g s V' (q1 @ p)).
            first_visits V' (q1 @ p) \<noteq> [] \<and> ?D (hd (first_visits V' (q1 @ p))) \<le> ?D x)"
        unfolding V'_def p_def
      proof (rule 1(2)[OF Cons False refl])
        show "s \<in> insert node V"
          using sV by simp
        show "set (q1 @ filter (\<lambda>x. x \<notin> insert node V) (getitem g node))
                \<subseteq> (edges g)\<^sup>* `` {s}"
        proof -
          have "x \<in> (edges g)\<^sup>* `` {s}" if "x \<in> set (getitem g node)" for x
          proof -
            from that have "(node, x) \<in> edges g"
              by (simp add: edges_def)
            with node_reach have "(s, x) \<in> (edges g)\<^sup>*"
              by (rule rtrancl_into_rtrancl)
            then show ?thesis by simp
          qed
          then show ?thesis
            using "1.prems"(2) Cons by auto
        qed
        show "\<forall>u \<in> insert node V. \<forall>v. (u, v) \<in> edges g \<longrightarrow>
                v \<in> insert node V \<union>
                    set (q1 @ filter (\<lambda>x. x \<notin> insert node V) (getitem g node))"
          using "1.prems"(3) Cons by (auto simp: edges_def)
        show "layered ?D (first_visits (insert node V)
                (q1 @ filter (\<lambda>x. x \<notin> insert node V) (getitem g node)))"
          using lay' unfolding V'_def p_def .
      qed
      have ns: "node \<noteq> s"
        using sV False by auto
      have out: "bfs_loop g s V q = node # bfs_loop g s V' (q1 @ p)"
        using Cons False ns by (simp add: bfs_loop_Cons V'_def p_def)
      have tail_ge: "?D node \<le> ?D x" if "x \<in> set (bfs_loop g s V' (q1 @ p))" for x
      proof -
        from IH that have "first_visits V' (q1 @ p) \<noteq> []"
            "?D (hd (first_visits V' (q1 @ p))) \<le> ?D x"
          by auto
        with hd_ge show ?thesis
          unfolding e' by force
      qed
      show ?thesis
        unfolding out e using IH tail_ge by auto
    qed
  qed
qed

lemma dag_add_edge_self:
  "dag_add_edge g x x w =
     (Inr (), (ensure g x x)\<lparr>
        graph := (if x \<in> set (getitem g x) then graph (ensure g x x)
                  else AList.update x (getitem g x @ [x]) (graph (ensure g x x))),
        edge_weights := (case w of None \<Rightarrow> edge_weights g
                         | Some y \<Rightarrow> (edge_weights g)((x, x) \<mapsto> y))\<rparr>)"
  by (simp add: dag_add_edge_eq has_path_def has_path_loop_iff bfs_def bfs_loop_not_start
      add_edge_eq)


section \<open>The guard between distinct nodes, and the sort on an acyclic example\<close>

text \<open>An insertion between two distinct nodes keeps an acyclic edge relation acyclic,
  whether it is accepted or rejected; and every state of a DAG is a state of the store.\<close>

lemma dag_add_edge_acyclic:
  assumes "a \<noteq> b" "acyclic (edges g)"
  shows "acyclic (edges (snd (dag_add_edge g a b w)))"
proof (cases "(b, a) \<in> (edges g)\<^sup>+")
  case True
  with assms show ?thesis
    by (simp add: dag_add_edge_eq has_path_iff)
next
  case False
  obtain g3 where g3: "add_edge g a b w = Inr g3"
    by (simp add: add_edge_eq)
  from False assms(1) have "(b, a) \<notin> (edges g)\<^sup>*"
    by (auto simp: rtrancl_eq_or_trancl)
  with assms(2) have "acyclic (insert (a, b) (edges g))"
    by (simp add: acyclic_insert)
  with False g3 show ?thesis
    by (simp add: dag_add_edge_eq has_path_iff add_edge_edges[OF g3])
qed

lemma dag_add_edge_store_reachable:
  assumes "store_reachable g"
  shows "store_reachable (snd (dag_add_edge g a b w))"
proof -
  have e: "store_reachable (ensure g a b)"
    using assms by (auto simp: ensure_def Let_def intro: sr_add_node)
  obtain g3 where g3: "add_edge g a b w = Inr g3"
    by (simp add: add_edge_eq)
  from assms g3 have "store_reachable g3"
    by (rule sr_add_edge)
  with e g3 show ?thesis
    by (simp add: dag_add_edge_eq)
qed

lemma top_sort_scenario:
  "(case dag_add_edges (init :: (string, 'v, 'w) digraph)
           [(''A'', ''B''), (''B'', ''C''), (''A'', ''C'')] of
      Inl e \<Rightarrow> False
    | Inr g \<Rightarrow> top_sort g = Inr [''A'', ''B'', ''C''] \<and>
               fst (dag_add_edge g ''C'' ''A'' None) = Inl (ValueError ''C'' ''A'') \<and>
               getitem (snd (dag_add_edge g ''C'' ''A'' None)) ''C'' = []) \<and>
   top_sort (init :: (string, 'v, 'w) digraph) = Inr []"
  by code_simp

section \<open>The store's contract\<close>

text \<open>
  C8. For every graph built with the store's insertion methods and every pair of nodes
  \<open>a\<close>, \<open>b\<close>: \<open>add_edge(a, b)\<close> returns normally, after it \<open>a\<close> and \<open>b\<close> are both contained and
  \<open>b\<close> occurs exactly once in the neighbours of \<open>a\<close>; a second \<open>add_edge(a, b)\<close> (with any
  weight) returns normally too, leaves the adjacency dictionary as it was, and so \<open>b\<close> still
  occurs exactly once.
\<close>

theorem add_edge_twice:
  assumes "store_reachable g"
  shows "\<exists>g1 g2. add_edge g a b w = Inr g1 \<and> add_edge g1 a b w' = Inr g2 \<and>
     contains g1 a \<and> contains g1 b \<and> count_list (getitem g1 a) b = 1 \<and>
     contains g2 a \<and> contains g2 b \<and> count_list (getitem g2 a) b = 1 \<and>
     graph g2 = graph g1"
proof -
  obtain g1 where g1: "add_edge g a b w = Inr g1"
    by (simp add: add_edge_eq)
  obtain g2 where g2: "add_edge g1 a b w' = Inr g2"
    by (simp add: add_edge_eq)
  have r1: "store_reachable g1"
    using assms g1 by (rule sr_add_edge)
  have c1: "contains g1 a" "contains g1 b"
    by (simp_all add: add_edge_contains[OF g1])
  have c2: "contains g2 a" "contains g2 b"
    by (simp_all add: add_edge_contains[OF g2])
  have m1: "b \<in> set (getitem g1 a)"
    by (simp add: add_edge_getitem[OF g1])
  have "distinct (getitem g1 a)"
    using r1 by (rule store_reachable_distinct)
  with m1 have n1: "count_list (getitem g1 a) b = 1"
    by (simp add: count_list_distinct)
  have same: "graph g2 = graph g1"
    using g2 m1 c1 by (auto simp: add_edge_eq ensure_present)
  have "getitem g2 = getitem g1"
    using m1 by (simp add: add_edge_getitem[OF g2])
  with n1 have n2: "count_list (getitem g2 a) b = 1"
    by simp
  from g1 g2 c1 c2 n1 n2 same show ?thesis
    by blast
qed

theorem add_edge_twice_witness:
  "store_reachable (init :: (string, 'v, 'w) digraph) \<and>
   (\<exists>g1 g2. add_edge (init :: (string, 'v, 'w) digraph) ''A'' ''B'' None = Inr g1 \<and>
     add_edge g1 ''A'' ''B'' None = Inr g2 \<and>
     contains g1 ''A'' \<and> contains g1 ''B'' \<and> count_list (getitem g1 ''A'') ''B'' = 1 \<and>
     contains g2 ''A'' \<and> contains g2 ''B'' \<and> count_list (getitem g2 ''A'') ''B'' = 1 \<and>
     graph g2 = graph g1)"
  using add_edge_twice[OF sr_init, of "''A''" "''B''" None None] sr_init by blast

text \<open>
  C9. The lookups of the store are total functions, they have no error result: for every
  graph, \<open>neighbors(node)\<close> (\<open>__getitem__\<close>, and \<open>successors\<close> alike) is the empty sequence
  when \<open>node\<close> is not in the graph, and \<open>get_edge_weight(start, end)\<close> is \<open>None\<close> when the
  weight dictionary has no entry for the pair; on a new graph both hold for every input.
\<close>

theorem lookups_absent:
  "(\<not> contains g node \<longrightarrow> getitem g node = [] \<and> successors g node = []) \<and>
   (edge_weights g (start, end) = None \<longrightarrow> get_edge_weight g start end = None) \<and>
   getitem (init :: ('a, 'v, 'w) digraph) node = [] \<and>
   get_edge_weight (init :: ('a, 'v, 'w) digraph) start end = None"
  for g :: "('a, 'v, 'w) digraph"
  by (auto simp: getitem_absent successors_def contains_iff_map_of get_edge_weight_def
      init_def getitem_def)

theorem lookups_absent_witness:
  "\<not> contains (init :: (string, 'v, 'w) digraph) ''A'' \<and>
   getitem (init :: (string, 'v, 'w) digraph) ''A'' = [] \<and>
   edge_weights (init :: (string, 'v, 'w) digraph) (''A'', ''B'') = None \<and>
   get_edge_weight (init :: (string, 'v, 'w) digraph) ''A'' ''B'' = None"
  using lookups_absent[of "init :: (string, 'v, 'w) digraph" "''A''" "''A''" "''B''"]
  by (simp add: contains_def init_def)

section \<open>Traversals\<close>

text \<open>
  C7. On the graph built by \<open>add_edge\<close> of A\<rightarrow>B, A\<rightarrow>C, B\<rightarrow>D in that order (with the
  store's method, and with the DAG's method as well), the depth-first traversal from A
  yields B, D, C and the breadth-first traversal from A yields B, C, D.
\<close>

theorem traversal_scenario:
  "(case add_edges (init :: (string, 'v, 'w) digraph)
           [(''A'', ''B''), (''A'', ''C''), (''B'', ''D'')] of
      Inl e \<Rightarrow> False
    | Inr g \<Rightarrow> dfs g ''A'' = [''B'', ''D'', ''C''] \<and> bfs g ''A'' = [''B'', ''C'', ''D'']) \<and>
   (case dag_add_edges (init :: (string, 'v, 'w) digraph)
           [(''A'', ''B''), (''A'', ''C''), (''B'', ''D'')] of
      Inl e \<Rightarrow> False
    | Inr g \<Rightarrow> dfs g ''A'' = [''B'', ''D'', ''C''] \<and> bfs g ''A'' = [''B'', ''C'', ''D''])"
  by code_simp

text \<open>
  C5. For every graph and every start node, the depth-first and the breadth-first
  traversal never yield \<open>start\<close>; each yields exactly the nodes other than \<open>start\<close> that a
  nonempty path of edges reaches from \<open>start\<close>, each of them once; and when \<open>start\<close> is not a
  node of the graph both yield nothing. Both are total functions with no error result.
\<close>

theorem traversals_reachable:
  "start \<notin> set (dfs g start) \<and> start \<notin> set (bfs g start) \<and>
   set (dfs g start) = {v. (start, v) \<in> (edges g)\<^sup>+ \<and> v \<noteq> start} \<and>
   distinct (dfs g start) \<and>
   set (bfs g start) = {v. (start, v) \<in> (edges g)\<^sup>+ \<and> v \<noteq> start} \<and>
   distinct (bfs g start) \<and>
   (\<not> contains g start \<longrightarrow> dfs g start = [] \<and> bfs g start = [])"
proof -
  have "dfs g start = [] \<and> bfs g start = []" if "\<not> contains g start"
  proof -
    from that have "{v. (start, v) \<in> (edges g)\<^sup>+ \<and> v \<noteq> start} = {}"
      using no_edge_from_absent[of g start] by blast
    then have "set (dfs g start) = {}" "set (bfs g start) = {}"
      by (simp_all only: dfs_set bfs_set)
    then show ?thesis by simp
  qed
  moreover have "distinct (dfs g start)" "distinct (bfs g start)"
    by (simp_all add: dfs_def bfs_def dfs_loop_distinct bfs_loop_distinct)
  ultimately show ?thesis
    by (simp add: dfs_set bfs_set)
qed

theorem traversals_reachable_witness:
  "\<not> contains (init :: (string, 'v, 'w) digraph) ''A'' \<and>
   dfs (init :: (string, 'v, 'w) digraph) ''A'' = [] \<and>
   bfs (init :: (string, 'v, 'w) digraph) ''A'' = []"
  using traversals_reachable[of "''A''" "init :: (string, 'v, 'w) digraph"]
  by (simp add: contains_def init_def)

text \<open>
  C6. For every graph and every start node, the distances from \<open>start\<close> of the nodes the
  breadth-first traversal yields never decrease along the yielded sequence; and the
  sequence is the sequence of enqueued nodes (\<open>start\<close>, then every \<open>queue.append\<close> in
  order) cut down to first occurrences, without \<open>start\<close>: nodes are yielded in the order
  in which they were first enqueued, so nodes at the same distance are too.
\<close>

theorem bfs_layered:
  "sorted (map (dist g start) (bfs g start)) \<and>
   bfs g start =
     filter (\<lambda>n. n \<noteq> start) (first_visits {} (start # bfs_enqueued g {} [start]))"
proof
  let ?D = "dist g start"
  let ?q = "filter (\<lambda>x. x \<notin> {start}) (getitem g start)"
  have unfold: "bfs g start = bfs_loop g start {start} ?q"
    by (simp add: bfs_def bfs_loop_Cons)
  have one: "?D x = Suc 0" if "x \<in> set (first_visits {start} ?q)" for x
  proof -
    from that have x: "x \<in> set (getitem g start)" "x \<noteq> start"
      by (auto simp: set_first_visits)
    then have edge: "(start, x) \<in> edges g"
      by (simp add: edges_def)
    then have r: "(start, x) \<in> (edges g)\<^sup>*"
      by blast
    from dist_edge[OF rtrancl.rtrancl_refl edge] have "?D x \<le> Suc 0"
      by simp
    moreover have "?D x \<noteq> 0"
      using dist_zero[OF r] x(2) by blast
    ultimately show ?thesis by simp
  qed
  have "sorted (map ?D (bfs_loop g start {start} ?q)) \<and>
        (\<forall>x \<in> set (bfs_loop g start {start} ?q).
           first_visits {start} ?q \<noteq> [] \<and>
           ?D (hd (first_visits {start} ?q)) \<le> ?D x)"
  proof (rule bfs_loop_sorted)
    show "start \<in> {start}" by simp
    show "set ?q \<subseteq> (edges g)\<^sup>* `` {start}"
      by (auto simp: edges_def)
    show "\<forall>u \<in> {start}. \<forall>v. (u, v) \<in> edges g \<longrightarrow> v \<in> {start} \<union> set ?q"
      by (auto simp: edges_def)
    show "layered ?D (first_visits {start} ?q)"
      unfolding layered_def
      using one sorted_const[of "first_visits {start} ?q" ?D "Suc 0"] by simp
  qed
  then show "sorted (map ?D (bfs g start))"
    by (simp only: unfold)
  show "bfs g start =
     filter (\<lambda>n. n \<noteq> start) (first_visits {} (start # bfs_enqueued g {} [start]))"
    using bfs_loop_first_visits[of g start "{}" "[start]"] by (simp add: bfs_def)
qed

section \<open>The acyclicity guard\<close>

text \<open>
  C10. For every graph and every node \<open>x\<close>, \<open>_has_path(x, x)\<close> returns \<open>False\<close>: the
  breadth-first traversal never yields its start node, whatever the edges are, so a cycle
  through \<open>x\<close> is not reported either.
\<close>

theorem has_path_self_false: "has_path g x x = False"
  by (simp add: has_path_def has_path_loop_iff bfs_def bfs_loop_not_start)

text \<open>
  C2. For every DAG state and every pair of distinct nodes \<open>a\<close>, \<open>b\<close>: the DAG's
  \<open>add_edge(a, b)\<close> raises the \<open>ValueError\<close> naming \<open>a\<close> and \<open>b\<close> if and only if the state
  has a path from \<open>b\<close> to \<open>a\<close>, and returns normally otherwise. When it raises, the state
  left behind is the old one with the two endpoints inserted as nodes: every successor
  sequence, hence the edge set, and the edge weights are as before, and \<open>a\<close> and \<open>b\<close> are
  nodes.
\<close>

theorem dag_add_edge_rejects_iff:
  assumes "a \<noteq> b"
  shows "(fst (dag_add_edge g a b w) = Inl (ValueError a b) \<longleftrightarrow> (b, a) \<in> (edges g)\<^sup>+) \<and>
         ((b, a) \<notin> (edges g)\<^sup>+ \<longrightarrow> fst (dag_add_edge g a b w) = Inr ()) \<and>
         ((b, a) \<in> (edges g)\<^sup>+ \<longrightarrow>
            snd (dag_add_edge g a b w) = ensure g a b \<and>
            getitem (snd (dag_add_edge g a b w)) = getitem g \<and>
            edges (snd (dag_add_edge g a b w)) = edges g \<and>
            edge_weights (snd (dag_add_edge g a b w)) = edge_weights g \<and>
            contains (snd (dag_add_edge g a b w)) a \<and>
            contains (snd (dag_add_edge g a b w)) b)"
  using assms by (simp add: dag_add_edge_eq has_path_iff add_edge_eq)

theorem dag_add_edge_rejects_iff_witness:
  "''B'' \<noteq> ''A'' \<and>
   (''A'', ''B'') \<in>
     (edges (snd (dag_add_edge (init :: (string, 'v, 'w) digraph) ''A'' ''B'' None)))\<^sup>+ \<and>
   fst (dag_add_edge (snd (dag_add_edge (init :: (string, 'v, 'w) digraph) ''A'' ''B'' None))
          ''B'' ''A'' None) = Inl (ValueError ''B'' ''A'') \<and>
   getitem (snd (dag_add_edge
                  (snd (dag_add_edge (init :: (string, 'v, 'w) digraph) ''A'' ''B'' None))
                  ''B'' ''A'' None)) ''B'' = []"
proof -
  let ?g = "snd (dag_add_edge (init :: (string, 'v, 'w) digraph) ''A'' ''B'' None)"
  have ne: "''B'' \<noteq> ''A''"
    by simp
  have ga: "getitem ?g ''A'' = [''B'']" and gb: "getitem ?g ''B'' = []"
    by code_simp+
  from ga have "(''A'', ''B'') \<in> edges ?g"
    by (simp add: edges_def)
  then have p: "(''A'', ''B'') \<in> (edges ?g)\<^sup>+"
    by (rule r_into_trancl')
  from dag_add_edge_rejects_iff[OF ne, of ?g None] p ne gb
  show ?thesis by simp
qed

text \<open>
  C3 asks that \<open>add_edge(x, x)\<close> on a DAG be rejected. The code accepts it: on the empty
  DAG, \<open>add_edge('A', 'A')\<close> returns normally and leaves A in its own successor sequence.
\<close>

theorem dag_self_loop_accepted:
  "fst (dag_add_edge (init :: (string, 'v, 'w) digraph) ''A'' ''A'' None) = Inr () \<and>
   getitem (snd (dag_add_edge (init :: (string, 'v, 'w) digraph) ''A'' ''A'' None)) ''A''
     = [''A'']"
  by (simp add: dag_add_edge_self getitem_def init_def ensure_def contains_def add_node_def)

text \<open>
  C1 asks that the edge relation of a DAG be acyclic after every successful insertion. The
  code breaks it: after the successful \<open>add_edge('A', 'A')\<close> on the empty DAG the edge
  relation has a path from A to A.
\<close>

theorem dag_self_loop_cycle:
  "fst (dag_add_edge (init :: (string, 'v, 'w) digraph) ''A'' ''A'' None) = Inr () \<and>
   (''A'', ''A'') \<in>
     (edges (snd (dag_add_edge (init :: (string, 'v, 'w) digraph) ''A'' ''A'' None)))\<^sup>+"
proof -
  have "(''A'', ''A'') \<in>
          edges (snd (dag_add_edge (init :: (string, 'v, 'w) digraph) ''A'' ''A'' None))"
    by (simp add: edges_def dag_add_edge_self getitem_def init_def ensure_def contains_def
        add_node_def)
  then show ?thesis
    by (simp add: dag_add_edge_self r_into_trancl')
qed

section \<open>Topological sort\<close>

text \<open>
  C4 asks that \<open>top_sort()\<close> of a DAG built through the DAG's methods return every node.
  On the DAG left by \<open>add_edge('A', 'A')\<close>, which contains the node A, \<open>top_sort()\<close>
  returns the empty list.
\<close>

theorem top_sort_self_loop:
  "contains (snd (dag_add_edge (init :: (string, 'v, 'w) digraph) ''A'' ''A'' None)) ''A'' \<and>
   top_sort (snd (dag_add_edge (init :: (string, 'v, 'w) digraph) ''A'' ''A'' None)) = Inr []"
  by code_simp

end
